theory Spec2Isabelle
  imports Main
begin

section \<open>CIGAR coordinate translation (genetic\_coordinates/cigar\_translate.py)\<close>

text \<open>
  A shallow embedding of the four functions of \<^verbatim>\<open>cigar_translate.py\<close>:
  \<^verbatim>\<open>cigar_to_operators\<close>, \<^verbatim>\<open>get_length\<close>, \<^verbatim>\<open>make_index_map\<close> and
  \<^verbatim>\<open>translate_coordinate\<close>. Python's unbounded integers are \<open>int\<close>, a Python string is a
  \<open>string\<close>, a list of tuples is a list of pairs, and the result \<^verbatim>\<open>None\<close> of the translator
  is \<open>None\<close> of an option. An exception is a value of \<open>py_error\<close>.
\<close>

subsection \<open>The parser: \<^verbatim>\<open>cigar_to_operators\<close>\<close>

datatype py_error = IndexError | ValueError

text \<open>The two character classes of the pattern \<^verbatim>\<open>[0-9]+[MIDNSHP=X]\<close>.\<close>

definition is_digit :: "char \<Rightarrow> bool" where
  "is_digit c \<longleftrightarrow> c \<in> set ''0123456789''"

definition is_code :: "char \<Rightarrow> bool" where
  "is_code c \<longleftrightarrow> c \<in> set ''MIDNSHP=X''"

text \<open>
  One attempt of the regular-expression engine to match \<^verbatim>\<open>[0-9]+[MIDNSHP=X]\<close> at the
  start of a string. The greedy \<^verbatim>\<open>[0-9]+\<close> takes every leading digit and the next character
  has to be an operator code. The result is the matched text and the text after it.
  (When the engine backtracks to fewer digits, the next character is a digit, which is no
  operator code, so backtracking never finds a match: see \<open>re_match_backtrack\<close> below.)
\<close>

definition re_match :: "string \<Rightarrow> (string \<times> string) option" where
  "re_match s =
     (let ds = takeWhile is_digit s; r = dropWhile is_digit s
      in if ds = [] then None
         else (case r of
                 [] \<Rightarrow> None
               | c # rest \<Rightarrow> if is_code c then Some (ds @ [c], rest) else None))"

text \<open>
  The same attempt with the backtracking of the engine written out: \<open>k\<close> digits are tried,
  from the longest run down to one digit, each followed by an operator code.
\<close>

fun re_match_backtrack :: "nat \<Rightarrow> string \<Rightarrow> (string \<times> string) option" where
  "re_match_backtrack 0 s = None"
| "re_match_backtrack (Suc k) s =
     (if Suc k < length s \<and> list_all is_digit (take (Suc k) s) \<and> is_code (s ! Suc k)
      then Some (take (Suc (Suc k)) s, drop (Suc (Suc k)) s)
      else re_match_backtrack k s)"

text \<open>
  \<^verbatim>\<open>re.findall\<close>: scan from the left; where the pattern matches, keep the matched text and
  go on after it; where it does not, go on one character further.
\<close>

function re_findall :: "string \<Rightarrow> string list" where
  "re_findall [] = []"
| "re_findall (c # cs) =
     (case re_match (c # cs) of
        Some (m, rest) \<Rightarrow> m # re_findall rest
      | None \<Rightarrow> re_findall cs)"
  by pat_completeness auto
termination
proof (relation "measure length")
  show "wf (measure length)" by simp
next
  fix c :: char and cs m rest :: string and x :: "string \<times> string"
  assume a: "re_match (c # cs) = Some x" and b: "(m, rest) = x"
  have "length (dropWhile is_digit (c # cs)) \<le> length (c # cs)"
    by (rule length_dropWhile_le)
  moreover from a b have "\<exists>d. dropWhile is_digit (c # cs) = d # rest"
    by (auto simp: re_match_def Let_def split: if_splits list.splits)
  ultimately have "length rest < length (c # cs)" by auto
  then show "(rest, c # cs) \<in> measure length" by simp
next
  fix c :: char and cs :: string
  show "(cs, c # cs) \<in> measure length" by simp
qed

text \<open>
  \<^verbatim>\<open>int(c[:-1])\<close> on a string of ASCII digits: the decimal value (leading zeros allowed).
  The argument is always a non-empty string of digits (\<open>re_findall_shape\<close> below), on which
  \<^verbatim>\<open>int\<close> does not raise.
\<close>

definition digit_value :: "char \<Rightarrow> int" where
  "digit_value c = int (of_char c) - 48"

definition py_int :: "string \<Rightarrow> int" where
  "py_int ds = foldl (\<lambda>n c. 10 * n + digit_value c) 0 ds"

definition cigar_to_operators :: "string \<Rightarrow> (int \<times> char) list" where
  "cigar_to_operators cigar = map (\<lambda>c. (py_int (butlast c), last c)) (re_findall cigar)"

subsection \<open>\<^verbatim>\<open>get_length\<close>\<close>

definition get_length :: "string \<Rightarrow> int" where
  "get_length cigar =
     (let re_cigar = cigar_to_operators cigar
      in sum_list (map fst (filter (\<lambda>p. snd p \<notin> set ''DNHP'') re_cigar)))"

subsection \<open>\<^verbatim>\<open>make_index_map\<close>\<close>

record build_state =
  transcript_index_map :: "(int \<times> int) list"
  ref_size :: int
  trans_size :: int

text \<open>One pass of the loop body, for the operator \<open>(sz, code)\<close>.\<close>

definition index_step :: "build_state \<Rightarrow> int \<times> char \<Rightarrow> build_state" where
  "index_step st op =
     (case op of (sz, code) \<Rightarrow>
        if code \<in> set ''M=X'' then
          st\<lparr>ref_size := ref_size st + sz, trans_size := trans_size st + sz\<rparr>
        else if code \<in> set ''DN'' then
          st\<lparr>ref_size := ref_size st + sz,
             transcript_index_map := transcript_index_map st @ [(trans_size st - 1, sz)]\<rparr>
        else if code \<in> set ''IS'' then
          st\<lparr>transcript_index_map := transcript_index_map st @ [(trans_size st - 1, - sz)],
             trans_size := trans_size st + sz\<rparr>
        else st)"

definition init_state :: build_state where
  "init_state = \<lparr>transcript_index_map = [], ref_size = 0, trans_size = 0\<rparr>"

definition make_index_map :: "string \<Rightarrow> (int \<times> int) list" where
  "make_index_map cigar =
     (let re_cigar = cigar_to_operators cigar
      in transcript_index_map (foldl index_step init_state re_cigar))"

subsection \<open>\<^verbatim>\<open>translate_coordinate\<close>\<close>

text \<open>\<^verbatim>\<open>xs[-1]\<close>: the last element, IndexError on the empty list.\<close>

definition py_last :: "'a list \<Rightarrow> py_error + 'a" where
  "py_last xs = (if xs = [] then Inl IndexError else Inr (last xs))"

text \<open>The local \<^verbatim>\<open>mapped_adjusts\<close>: the entries whose anchor is below the query, in list order.\<close>

definition mapped_adjusts :: "int \<Rightarrow> (int \<times> int) list \<Rightarrow> (int \<times> int) list" where
  "mapped_adjusts coordinate_query index_map = filter (\<lambda>a. coordinate_query > fst a) index_map"

text \<open>
  The result is \<open>Inr None\<close> for Python's \<^verbatim>\<open>None\<close>, \<open>Inr (Some c)\<close> for the coordinate \<open>c\<close>,
  and \<open>Inl e\<close> when the exception \<open>e\<close> is raised. The condition
  \<^verbatim>\<open>mapped_adjusts and mapped_adjusts[-1][1] < 0\<close> evaluates its second operand only when
  the list is not empty.
\<close>

definition translate_coordinate ::
  "int \<Rightarrow> (int \<times> int) list \<Rightarrow> int \<Rightarrow> int \<Rightarrow> py_error + int option" where
  "translate_coordinate coordinate_query index_map ref_start transcript_length =
     (if coordinate_query \<ge> transcript_length \<or> coordinate_query < 0 then Inr None
      else
        let adjusts = mapped_adjusts coordinate_query index_map;
            ref_coord = ref_start + coordinate_query + sum_list (map snd adjusts)
        in if adjusts = [] then Inr (Some ref_coord)
           else (case py_last adjusts of
                   Inl e \<Rightarrow> Inl e
                 | Inr last_adjust \<Rightarrow>
                     if snd last_adjust < 0 then
                       (let diff = fst last_adjust - coordinate_query - snd last_adjust
                        in if diff > 0 then Inr (Some (ref_coord + diff))
                           else Inr (Some ref_coord))
                     else Inr (Some ref_coord)))"

section \<open>Definitions that follow the specification\<close>

subsection \<open>The parser contract\<close>

text \<open>
  The contract of the parser speaks of maximal runs of digits. \<open>tokens\<close> cuts a string into
  its maximal runs of digits and its other characters, one token each, without reference
  to the regular expression; \<open>spec_pairs\<close> keeps, from left to right, every run of digits
  whose next token is an operator code.
\<close>

datatype token = Digits string | Other char

fun tokens :: "string \<Rightarrow> token list" where
  "tokens [] = []"
| "tokens (c # cs) =
     (if is_digit c then
        (case tokens cs of
           Digits ds # ts \<Rightarrow> Digits (c # ds) # ts
         | ts \<Rightarrow> Digits [c] # ts)
      else Other c # tokens cs)"

fun token_text :: "token \<Rightarrow> string" where
  "token_text (Digits ds) = ds"
| "token_text (Other c) = [c]"

fun is_run :: "token \<Rightarrow> bool" where
  "is_run (Digits ds) = True"
| "is_run (Other c) = False"

fun spec_pairs :: "token list \<Rightarrow> (int \<times> char) list" where
  "spec_pairs (Digits ds # Other c # ts) =
     (if is_code c then (py_int ds, c) # spec_pairs ts else spec_pairs ts)"
| "spec_pairs (t # ts) = spec_pairs ts"
| "spec_pairs [] = []"


subsection \<open>The index map builder contract\<close>

text \<open>
  The builder as the specification words it: two counters, \<open>rs\<close> for \<^verbatim>\<open>ref_size\<close> and \<open>ts\<close>
  for \<^verbatim>\<open>trans_size\<close>, and the entries in the order they are emitted.
\<close>

fun spec_index_map :: "int \<Rightarrow> int \<Rightarrow> (int \<times> char) list \<Rightarrow> (int \<times> int) list" where
  "spec_index_map rs ts [] = []"
| "spec_index_map rs ts ((n, c) # ops) =
     (if c = CHR ''M'' \<or> c = CHR ''='' \<or> c = CHR ''X'' then spec_index_map (rs + n) (ts + n) ops
      else if c = CHR ''D'' \<or> c = CHR ''N'' then (ts - 1, n) # spec_index_map (rs + n) ts ops
      else if c = CHR ''I'' \<or> c = CHR ''S'' then (ts - 1, - n) # spec_index_map rs (ts + n) ops
      else spec_index_map rs ts ops)"

subsection \<open>The translator contract\<close>


text \<open>The precondition on the input: the first operator is neither I nor D.\<close>

definition begins_with_indel :: "string \<Rightarrow> bool" where
  "begins_with_indel cigar =
     (case cigar_to_operators cigar of
        [] \<Rightarrow> False
      | (n, c) # ops \<Rightarrow> c = CHR ''I'' \<or> c = CHR ''D'')"

section \<open>Auxiliary notions for the proofs\<close>

text \<open>
  The last transcript index an entry covers: the anchor of a deletion, the last inserted
  base of an insertion.
\<close>

definition span_end :: "int \<times> int \<Rightarrow> int" where
  "span_end e = (if snd e < 0 then fst e - snd e else fst e)"

text \<open>An index map is \<open>spaced\<close> when no entry is anchored before the span end of an earlier one.\<close>

fun spaced :: "(int \<times> int) list \<Rightarrow> bool" where
  "spaced [] = True"
| "spaced (e # es) = ((\<forall>e' \<in> set es. span_end e \<le> fst e') \<and> spaced es)"

text \<open>
  The offset that the translator adds to \<^verbatim>\<open>ref_start\<close> for an in-range query: the query, the
  adjustments of the selected entries, and the correction.
\<close>

definition offset :: "int \<Rightarrow> (int \<times> int) list \<Rightarrow> int" where
  "offset q im =
     (let sel = mapped_adjusts q im
      in q + sum_list (map snd sel)
         + (if sel \<noteq> [] \<and> snd (last sel) < 0 \<and> fst (last sel) - q - snd (last sel) > 0
            then fst (last sel) - q - snd (last sel) else 0))"

section \<open>Properties\<close>

subsection \<open>The translator's results\<close>

lemma translate_in_range:
  assumes "0 \<le> q" "q < L"
  shows "translate_coordinate q im r L = Inr (Some (r + offset q im))"
  using assms
  by (simp add: translate_coordinate_def offset_def py_last_def Let_def)

lemma translate_out_of_range:
  assumes "q < 0 \<or> L \<le> q"
  shows "translate_coordinate q im r L = Inr None"
  using assms by (auto simp: translate_coordinate_def)

text \<open>
  C3. For every query, index map, reference start and transcript length, the translator
  returns None exactly when the query is negative or not below the transcript length; in
  particular at \<open>-1\<close> and at the transcript length. For every query in range it returns a
  coordinate, and it raises no exception on any input.
\<close>

theorem translate_not_found_iff:
  "(translate_coordinate q im r L = Inr None \<longleftrightarrow> q < 0 \<or> q \<ge> L)
   \<and> translate_coordinate (- 1) im r L = Inr None
   \<and> translate_coordinate L im r L = Inr None
   \<and> (0 \<le> q \<and> q < L \<longrightarrow> (\<exists>c. translate_coordinate q im r L = Inr (Some c)))
   \<and> (\<forall>e. translate_coordinate q im r L \<noteq> Inl e)"
proof -
  have out: "q < 0 \<or> q \<ge> L \<Longrightarrow> translate_coordinate q im r L = Inr None"
    by (rule translate_out_of_range) auto
  have inr: "0 \<le> q \<and> q < L \<Longrightarrow> translate_coordinate q im r L = Inr (Some (r + offset q im))"
    by (simp add: translate_in_range)
  have "translate_coordinate q im r L = Inr None \<longleftrightarrow> q < 0 \<or> q \<ge> L"
    using out inr by (cases "q < 0 \<or> q \<ge> L") auto
  moreover have "translate_coordinate (- 1) im r L = Inr None"
    by (rule translate_out_of_range) simp
  moreover have "translate_coordinate L im r L = Inr None"
    by (rule translate_out_of_range) simp
  moreover have "\<forall>e. translate_coordinate q im r L \<noteq> Inl e"
    using out inr by (cases "q < 0 \<or> q \<ge> L") auto
  ultimately show ?thesis using inr by blast
qed

theorem translate_not_found_iff_witness:
  "translate_coordinate 25 [(7, 7), (13, - 2), (17, 11)] 3 25 = Inr None
   \<and> translate_coordinate (- 1) [(7, 7), (13, - 2), (17, 11)] 3 25 = Inr None
   \<and> (0 \<le> (24::int) \<and> (24::int) < 25)
   \<and> (\<exists>c. translate_coordinate 24 [(7, 7), (13, - 2), (17, 11)] 3 25 = Inr (Some c))"
  using translate_not_found_iff [of 25 "[(7, 7), (13, - 2), (17, 11)]" 3 25]
    translate_not_found_iff [of 24 "[(7, 7), (13, - 2), (17, 11)]" 3 25]
  by simp

subsection \<open>The parser finds the maximal digit runs that an operator code follows\<close>



lemma code_not_digit: "is_code c \<Longrightarrow> \<not> is_digit c"
  by (auto simp: is_code_def is_digit_def)




lemma re_match_other: "\<not> is_digit c \<Longrightarrow> re_match (c # cs) = None"
  by (simp add: re_match_def)

lemma cigar_to_operators_Nil: "cigar_to_operators [] = []"
  by (simp add: cigar_to_operators_def)

lemma cigar_to_operators_Cons:
  "cigar_to_operators (c # cs) =
     (case re_match (c # cs) of
        Some (m, rest) \<Rightarrow> (py_int (butlast m), last m) # cigar_to_operators rest
      | None \<Rightarrow> cigar_to_operators cs)"
  by (simp add: cigar_to_operators_def split: option.splits)



lemma tokens_text: "concat (map token_text (tokens s)) = s"
proof (induction s)
  case Nil show ?case by simp
next
  case (Cons c cs)
  then show ?case by (cases "tokens cs" rule: spec_pairs.cases) (auto split: list.splits token.splits)
qed

lemma tokens_shape:
  "t \<in> set (tokens s) \<Longrightarrow>
     (case t of Digits ds \<Rightarrow> ds \<noteq> [] \<and> list_all is_digit ds | Other c \<Rightarrow> \<not> is_digit c)"
proof (induction s arbitrary: t)
  case Nil then show ?case by simp
next
  case (Cons c cs)
  show ?case
  proof (cases "is_digit c")
    case False
    with Cons show ?thesis by auto
  next
    case True
    show ?thesis
    proof (cases "tokens cs")
      case Nil
      with True Cons.prems show ?thesis by simp
    next
      case c2: (Cons w ws)
      show ?thesis
      proof (cases w)
        case (Other d)
        with True c2 Cons.prems have "t = Digits [c] \<or> t \<in> set (tokens cs)" by auto
        with True Cons.IH show ?thesis by auto
      next
        case (Digits ds)
        with True c2 Cons.prems have "t = Digits (c # ds) \<or> t \<in> set (tokens cs)" by auto
        moreover have "list_all is_digit ds"
          using Cons.IH [of "Digits ds"] c2 Digits by simp
        ultimately show ?thesis using True Cons.IH by auto
      qed
    qed
  qed
qed

text \<open>two runs are never adjacent: each run is maximal\<close>
lemma tokens_maximal:
  "tokens s = us @ t # t' # vs \<Longrightarrow> \<not> (is_run t \<and> is_run t')"
proof (induction s arbitrary: us t t' vs)
  case Nil then show ?case by simp
next
  case (Cons c cs)
  show ?case
  proof (cases "is_digit c")
    case False
    with Cons.prems have e: "Other c # tokens cs = us @ t # t' # vs" by simp
    show ?thesis
    proof (cases us)
      case Nil with e show ?thesis by auto
    next
      case (Cons u us')
      with e have "tokens cs = us' @ t # t' # vs" by simp
      then show ?thesis by (rule Cons.IH)
    qed
  next
    case True
    show ?thesis
    proof (cases "tokens cs")
      case Nil
      with True Cons.prems show ?thesis by (cases us) auto
    next
      case c2: (Cons w ws)
      show ?thesis
      proof (cases w)
        case (Other d)
        with True c2 Cons.prems have e: "Digits [c] # Other d # ws = us @ t # t' # vs" by simp
        show ?thesis
        proof (cases us)
          case Nil with e show ?thesis by auto
        next
          case (Cons u us')
          with e c2 Other have "tokens cs = us' @ t # t' # vs" by simp
          then show ?thesis by (rule Cons.IH)
        qed
      next
        case (Digits ds)
        with True c2 Cons.prems have e: "Digits (c # ds) # ws = us @ t # t' # vs" by simp
        show ?thesis
        proof (cases us)
          case Nil
          with e c2 Digits have "tokens cs = [] @ Digits ds # t' # vs" "is_run t" by auto
          from Cons.IH [OF this(1)] show ?thesis by simp
        next
          case (Cons u us')
          show ?thesis
          proof (cases us')
            case Nil
            with e Cons c2 Digits have "tokens cs = [] @ Digits ds # t # t' # vs" by auto
            then have "tokens cs = [Digits ds] @ t # t' # vs" by simp
            then show ?thesis by (rule Cons.IH)
          next
            case c3: (Cons u' us'')
            with e Cons c2 Digits have "tokens cs = (Digits ds # u' # us'') @ t # t' # vs" by auto
            then show ?thesis by (rule Cons.IH)
          qed
        qed
      qed
    qed
  qed
qed

lemma re_match_backtrack_short:
  "k < length (takeWhile is_digit s) \<Longrightarrow> re_match_backtrack k s = None"
proof (induction k)
  case 0 show ?case by simp
next
  case (Suc k)
  then have "is_digit (s ! Suc k)"
    by (metis nth_mem set_takeWhileD takeWhile_nth)
  then have "\<not> is_code (s ! Suc k)" by (auto simp: is_code_def is_digit_def)
  with Suc show ?case by simp
qed

lemma re_match_backtrack_greedy:
  "re_match_backtrack (length (takeWhile is_digit s)) s = re_match s"
proof (cases "length (takeWhile is_digit s)")
  case 0
  then show ?thesis by (simp add: re_match_def)
next
  case (Suc k)
  have tk: "take (Suc k) s = takeWhile is_digit s"
    using Suc by (metis takeWhile_eq_take)
  have dk: "drop (Suc k) s = dropWhile is_digit s"
    using Suc by (metis dropWhile_eq_drop)
  have ne: "takeWhile is_digit s \<noteq> []" using Suc by auto
  have alld: "list_all is_digit (take (Suc k) s)"
    unfolding tk by (simp add: list_all_iff) (metis set_takeWhileD)
  have below: "re_match_backtrack k s = None"
    by (rule re_match_backtrack_short) (simp add: Suc)
  show ?thesis
  proof (cases "dropWhile is_digit s")
    case Nil
    then have "drop (Suc k) s = []" using dk by simp
    then have "length s \<le> Suc k" by simp
    with Nil ne below show ?thesis
      by (simp add: Suc re_match_def del: dropWhile_eq_Nil_conv)
  next
    case (Cons c rest)
    then have lt: "Suc k < length s" using dk by (metis drop_eq_Nil2 list.distinct(1) not_le)
    have c: "s ! Suc k = c" using Cons dk lt by (metis Cons_nth_drop_Suc list.inject)
    have r: "drop (Suc (Suc k)) s = rest" using Cons dk lt by (metis Cons_nth_drop_Suc list.inject)
    have t2: "take (Suc (Suc k)) s = takeWhile is_digit s @ [c]"
      using tk c lt by (metis take_Suc_conv_app_nth)
    from Cons ne below Suc lt c r t2 alld show ?thesis
      by (simp add: re_match_def)
  qed
qed

lemma digit_value_nonneg: "is_digit c \<Longrightarrow> 0 \<le> digit_value c"
  by (auto simp: is_digit_def digit_value_def)

lemma py_int_snoc: "py_int (ds @ [d]) = 10 * py_int ds + digit_value d"
  by (simp add: py_int_def)

lemma py_int_nonneg: "list_all is_digit ds \<Longrightarrow> 0 \<le> py_int ds"
  by (induction ds rule: rev_induct) (simp_all add: py_int_snoc digit_value_nonneg, simp add: py_int_def)

lemma re_match_shape:
  "re_match s = Some (m, rest) \<Longrightarrow>
     \<exists>ds c. m = ds @ [c] \<and> ds \<noteq> [] \<and> list_all is_digit ds \<and> is_code c \<and> s = m @ rest"
proof -
  assume a: "re_match s = Some (m, rest)"
  have split: "s = takeWhile is_digit s @ dropWhile is_digit s" by simp
  have alld: "list_all is_digit (takeWhile is_digit s)"
    by (simp add: list_all_iff) (metis set_takeWhileD)
  from a obtain c where c: "takeWhile is_digit s \<noteq> []" "dropWhile is_digit s = c # rest"
    "is_code c" "m = takeWhile is_digit s @ [c]"
    by (auto simp: re_match_def Let_def split: if_splits list.splits)
  from split c(2) have "s = takeWhile is_digit s @ c # rest" by simp
  with c alld show ?thesis by auto
qed

lemma re_findall_shape:
  "m \<in> set (re_findall s) \<Longrightarrow>
     \<exists>ds c. m = ds @ [c] \<and> ds \<noteq> [] \<and> list_all is_digit ds \<and> is_code c"
proof (induction s rule: re_findall.induct)
  case 1 then show ?case by simp
next
  case (2 c cs)
  show ?case
  proof (cases "re_match (c # cs)")
    case None
    with 2 show ?thesis by simp
  next
    case (Some x)
    obtain m' rest where x: "x = (m', rest)" by (cases x)
    from re_match_shape [of "c # cs" m' rest] Some x
    have sh: "\<exists>ds c. m' = ds @ [c] \<and> ds \<noteq> [] \<and> list_all is_digit ds \<and> is_code c" by blast
    from 2(3) Some x have "m = m' \<or> m \<in> set (re_findall rest)" by simp
    then show ?thesis using sh 2(2) [OF Some x [symmetric]] by blast
  qed
qed

lemma operators_shape:
  assumes "(n, c) \<in> set (cigar_to_operators s)"
  shows "0 \<le> n \<and> is_code c"
proof -
  from assms obtain m where m: "m \<in> set (re_findall s)" "n = py_int (butlast m)" "c = last m"
    by (auto simp: cigar_to_operators_def)
  from re_findall_shape [OF m(1)] obtain ds d where
    "m = ds @ [d]" "list_all is_digit ds" "is_code d" by blast
  with m show ?thesis by (simp add: py_int_nonneg)
qed

lemma re_findall_subset:
  "m \<in> set (re_findall s) \<Longrightarrow> set m \<subseteq> set s"
proof (induction s rule: re_findall.induct)
  case 1 then show ?case by simp
next
  case (2 c cs)
  show ?case
  proof (cases "re_match (c # cs)")
    case None
    with 2 show ?thesis by auto
  next
    case (Some x)
    obtain m' rest where x: "x = (m', rest)" by (cases x)
    from re_match_shape [of "c # cs" m' rest] Some x
    have sh: "c # cs = m' @ rest" by blast
    from 2(3) Some x have "m = m' \<or> m \<in> set (re_findall rest)" by simp
    then show ?thesis
    proof
      assume "m = m'"
      with sh show ?thesis by (metis set_append Un_upper1)
    next
      assume "m \<in> set (re_findall rest)"
      then have "set m \<subseteq> set rest" by (rule 2(2) [OF Some x [symmetric]])
      with sh show ?thesis by (metis set_append Un_upper2 subset_trans)
    qed
  qed
qed

lemma operators_need_code:
  assumes "\<forall>c \<in> set s. \<not> is_code c"
  shows "cigar_to_operators s = []"
proof (rule ccontr)
  assume "cigar_to_operators s \<noteq> []"
  then obtain m where m: "m \<in> set (re_findall s)"
    by (cases "re_findall s") (auto simp: cigar_to_operators_def)
  from re_findall_shape [OF m] obtain ds c where "m = ds @ [c]" "is_code c" by blast
  with re_findall_subset [OF m] assms show False by auto
qed




subsection \<open>Text appended to a CIGAR string\<close>

lemma re_match_append_Some:
  "re_match s = Some (m, rest) \<Longrightarrow> re_match (s @ g) = Some (m, rest @ g)"
proof -
  assume a: "re_match s = Some (m, rest)"
  then obtain c where c: "takeWhile is_digit s \<noteq> []" "dropWhile is_digit s = c # rest"
    "is_code c" "m = takeWhile is_digit s @ [c]"
    by (auto simp: re_match_def Let_def split: if_splits list.splits)
  from c(2) have ex: "\<exists>x \<in> set s. \<not> is_digit x"
    by (metis dropWhile_eq_Nil_conv list.distinct(1))
  then have "takeWhile is_digit (s @ g) = takeWhile is_digit s"
    "dropWhile is_digit (s @ g) = dropWhile is_digit s @ g"
    by auto
  with c show ?thesis by (simp add: re_match_def)
qed

lemma re_match_append_None:
  assumes "re_match s = None" "\<exists>x \<in> set s. \<not> is_digit x"
  shows "re_match (s @ g) = None"
proof -
  from assms(2) have e: "takeWhile is_digit (s @ g) = takeWhile is_digit s"
    "dropWhile is_digit (s @ g) = dropWhile is_digit s @ g"
    by auto
  from assms(2) obtain c rest where d: "dropWhile is_digit s = c # rest"
    by (cases "dropWhile is_digit s") auto
  with assms(1) e show ?thesis
    by (auto simp: re_match_def Let_def split: if_splits)
qed

lemma re_match_append_no_code:
  assumes "re_match s = None" "\<forall>x \<in> set g. \<not> is_code x"
  shows "re_match (s @ g) = None"
proof (cases "\<exists>x \<in> set s. \<not> is_digit x")
  case True
  with assms(1) show ?thesis by (rule re_match_append_None)
next
  case False
  then have e: "dropWhile is_digit (s @ g) = dropWhile is_digit g"
    by simp
  show ?thesis
  proof (cases "dropWhile is_digit g")
    case Nil
    with e have "dropWhile is_digit (s @ g) = []" by simp
    then show ?thesis by (simp add: re_match_def Let_def del: dropWhile_eq_Nil_conv)
  next
    case (Cons c rest)
    then have "c \<in> set g" by (metis set_dropWhileD list.set_intros(1))
    with assms(2) have "\<not> is_code c" by simp
    with e Cons show ?thesis by (simp add: re_match_def Let_def)
  qed
qed

lemma operators_append:
  "s = [] \<or> \<not> is_digit (last s) \<Longrightarrow>
     cigar_to_operators (s @ g) = cigar_to_operators s @ cigar_to_operators g"
proof (induction s rule: re_findall.induct)
  case 1 show ?case by (simp add: cigar_to_operators_Nil)
next
  case (2 c cs)
  from 2(3) have nd: "\<not> is_digit (last (c # cs))" by simp
  then have ex: "\<exists>x \<in> set (c # cs). \<not> is_digit x"
    by (metis last_in_set list.distinct(1))
  show ?case
  proof (cases "re_match (c # cs)")
    case None
    have "re_match ((c # cs) @ g) = None" using None ex by (rule re_match_append_None)
    then have l: "cigar_to_operators ((c # cs) @ g) = cigar_to_operators (cs @ g)"
      using cigar_to_operators_Cons [of c "cs @ g"] by simp
    have "cs = [] \<or> \<not> is_digit (last cs)" using nd by (cases cs) auto
    from 2(1) [OF None this] l None show ?thesis
      by (simp add: cigar_to_operators_Cons [of c cs])
  next
    case (Some x)
    obtain m rest where x: "x = (m, rest)" by (cases x)
    have "re_match ((c # cs) @ g) = Some (m, rest @ g)"
      using Some x by (intro re_match_append_Some) simp
    then have l: "cigar_to_operators ((c # cs) @ g)
        = (py_int (butlast m), last m) # cigar_to_operators (rest @ g)"
      using cigar_to_operators_Cons [of c "cs @ g"] by simp
    from re_match_shape [of "c # cs" m rest] Some x have "c # cs = m @ rest" by blast
    then have "rest = [] \<or> \<not> is_digit (last rest)" using nd by (cases rest) auto
    from 2(2) [OF Some x [symmetric] this] l Some x show ?thesis
      by (simp add: cigar_to_operators_Cons [of c cs])
  qed
qed

lemma operators_append_no_code:
  "\<forall>x \<in> set g. \<not> is_code x \<Longrightarrow> cigar_to_operators (s @ g) = cigar_to_operators s"
proof (induction s rule: re_findall.induct)
  case 1 then show ?case by (simp add: cigar_to_operators_Nil operators_need_code)
next
  case (2 c cs)
  show ?case
  proof (cases "re_match (c # cs)")
    case None
    have "re_match ((c # cs) @ g) = None" using None 2(3) by (rule re_match_append_no_code)
    then have l: "cigar_to_operators ((c # cs) @ g) = cigar_to_operators (cs @ g)"
      using cigar_to_operators_Cons [of c "cs @ g"] by simp
    from 2(1) [OF None 2(3)] l None show ?thesis
      by (simp add: cigar_to_operators_Cons [of c cs])
  next
    case (Some x)
    obtain m rest where x: "x = (m, rest)" by (cases x)
    have "re_match ((c # cs) @ g) = Some (m, rest @ g)"
      using Some x by (intro re_match_append_Some) simp
    then have l: "cigar_to_operators ((c # cs) @ g)
        = (py_int (butlast m), last m) # cigar_to_operators (rest @ g)"
      using cigar_to_operators_Cons [of c "cs @ g"] by simp
    from 2(2) [OF Some x [symmetric] 2(3)] l Some x show ?thesis
      by (simp add: cigar_to_operators_Cons [of c cs])
  qed
qed

subsection \<open>The transcript length\<close>

lemma code_classes:
  "is_code c \<Longrightarrow> (c \<notin> set ''DNHP'') = (c \<in> set ''MIS=X'')"
  by (auto simp: is_code_def)

lemma get_length_codes:
  "get_length cigar
     = sum_list (map fst (filter (\<lambda>p. snd p \<in> set ''MIS=X'') (cigar_to_operators cigar)))"
proof -
  have "filter (\<lambda>p. snd p \<notin> set ''DNHP'') (cigar_to_operators cigar)
      = filter (\<lambda>p. snd p \<in> set ''MIS=X'') (cigar_to_operators cigar)"
  proof (rule filter_cong [OF refl])
    fix p assume "p \<in> set (cigar_to_operators cigar)"
    then have "is_code (snd p)" using operators_shape [of "fst p" "snd p" cigar] by simp
    then show "(snd p \<notin> set ''DNHP'') = (snd p \<in> set ''MIS=X'')" by (rule code_classes)
  qed
  then show ?thesis by (simp only: get_length_def Let_def)
qed

text \<open>
  C5. For every CIGAR string, \<open>get_length\<close> is the sum of the lengths of the parsed operators
  whose code is one of M, I, S, =, X; equivalently, whose code is none of D, N, H, P. The
  value does not change when garbage is appended: text that holds no operator run, appended
  to a string that does not end inside a run of digits (so in particular after the last
  recognised operator), or text without any operator code, appended to any string.
\<close>

theorem get_length_sum:
  "get_length cigar
     = sum_list (map fst (filter (\<lambda>p. snd p \<in> set ''MIS=X'') (cigar_to_operators cigar)))
   \<and> get_length cigar
     = sum_list (map fst (filter (\<lambda>p. snd p \<notin> set ''DNHP'') (cigar_to_operators cigar)))
   \<and> ((cigar = [] \<or> \<not> is_digit (last cigar)) \<and> cigar_to_operators g = []
        \<longrightarrow> get_length (cigar @ g) = get_length cigar)
   \<and> ((\<forall>c \<in> set g. \<not> is_code c) \<longrightarrow> get_length (cigar @ g) = get_length cigar)"
proof -
  have a: "(cigar = [] \<or> \<not> is_digit (last cigar)) \<and> cigar_to_operators g = []
        \<longrightarrow> get_length (cigar @ g) = get_length cigar"
    by (simp add: get_length_def operators_append)
  have b: "(\<forall>c \<in> set g. \<not> is_code c) \<longrightarrow> get_length (cigar @ g) = get_length cigar"
    by (simp add: get_length_def operators_append_no_code)
  have c: "get_length cigar
     = sum_list (map fst (filter (\<lambda>p. snd p \<notin> set ''DNHP'') (cigar_to_operators cigar)))"
    by (simp only: get_length_def Let_def)
  from a b c get_length_codes [of cigar] show ?thesis by blast
qed

theorem get_length_sum_witness:
  "(''2M2X4M7D6M2I2M11D7M'' = [] \<or> \<not> is_digit (last ''2M2X4M7D6M2I2M11D7M''))
   \<and> cigar_to_operators ''12Q'' = []
   \<and> \<not> list_ex is_code ''12Q''
   \<and> get_length (''2M2X4M7D6M2I2M11D7M'' @ ''12Q'') = get_length ''2M2X4M7D6M2I2M11D7M''
   \<and> get_length ''2M2X4M7D6M2I2M11D7M'' = 25"
proof -
  have a: "''2M2X4M7D6M2I2M11D7M'' = [] \<or> \<not> is_digit (last ''2M2X4M7D6M2I2M11D7M'')"
    by (simp add: is_digit_def)
  have b: "cigar_to_operators ''12Q'' = []" by code_simp
  have c: "\<forall>c \<in> set ''12Q''. \<not> is_code c" by (simp add: is_code_def)
  have d: "get_length ''2M2X4M7D6M2I2M11D7M'' = 25" by code_simp
  from a b get_length_sum [of "''2M2X4M7D6M2I2M11D7M''" "''12Q''"]
  have "get_length (''2M2X4M7D6M2I2M11D7M'' @ ''12Q'') = get_length ''2M2X4M7D6M2I2M11D7M''"
    by blast
  moreover have "\<not> list_ex is_code ''12Q''" using c by (simp add: list_ex_iff)
  ultimately show ?thesis using a b d by blast
qed

subsection \<open>The index map\<close>

lemma foldl_index_step:
  "transcript_index_map (foldl index_step st ops)
     = transcript_index_map st @ spec_index_map (ref_size st) (trans_size st) ops"
proof (induction ops arbitrary: st)
  case Nil show ?case by simp
next
  case (Cons p ops)
  obtain n c where p: "p = (n, c)" by (cases p)
  show ?case
    unfolding p foldl_Cons Cons.IH
    by (simp add: index_step_def)
qed

lemma make_index_map_spec:
  "make_index_map cigar = spec_index_map 0 0 (cigar_to_operators cigar)"
  by (simp add: make_index_map_def foldl_index_step init_state_def)


lemma span_end_ge: "fst e \<le> span_end e"
  by (simp add: span_end_def)

lemma spec_anchors:
  assumes "\<forall>p \<in> set ops. 0 \<le> fst p"
  shows "\<forall>e \<in> set (spec_index_map rs ts ops). ts - 1 \<le> fst e"
  using assms
proof (induction ops arbitrary: rs ts)
  case Nil show ?case by simp
next
  case (Cons p ops)
  obtain n c where p: "p = (n, c)" by (cases p)
  from Cons.prems p have n: "0 \<le> n" and rest: "\<forall>p \<in> set ops. 0 \<le> fst p" by auto
  have a: "\<forall>e \<in> set (spec_index_map rs' (ts + n) ops). ts - 1 \<le> fst e" for rs'
    using Cons.IH [OF rest, of rs' "ts + n"] n by fastforce
  have b: "\<forall>e \<in> set (spec_index_map rs' ts ops). ts - 1 \<le> fst e" for rs'
    using Cons.IH [OF rest, of rs' ts] .
  show ?case unfolding p using a b by simp
qed

lemma spec_spaced:
  assumes "\<forall>p \<in> set ops. 0 \<le> fst p"
  shows "spaced (spec_index_map rs ts ops)"
  using assms
proof (induction ops arbitrary: rs ts)
  case Nil show ?case by simp
next
  case (Cons p ops)
  obtain n c where p: "p = (n, c)" by (cases p)
  from Cons.prems p have n: "0 \<le> n" and rest: "\<forall>p \<in> set ops. 0 \<le> fst p" by auto
  note ih = Cons.IH [OF rest]
  have d: "\<forall>e \<in> set (spec_index_map rs' ts ops). span_end (ts - 1, n) \<le> fst e" for rs'
    using spec_anchors [OF rest, of rs' ts] n by (simp add: span_end_def)
  have i: "\<forall>e \<in> set (spec_index_map rs' (ts + n) ops). span_end (ts - 1, - n) \<le> fst e" for rs'
    using spec_anchors [OF rest, of rs' "ts + n"] n by (fastforce simp: span_end_def)
  show ?case unfolding p using ih d i by simp
qed

lemma operators_nonneg: "\<forall>p \<in> set (cigar_to_operators cigar). 0 \<le> fst p"
  using operators_shape [of _ _ cigar] by auto

lemma make_index_map_spaced: "spaced (make_index_map cigar)"
  by (simp add: make_index_map_spec spec_spaced operators_nonneg)

lemma spaced_sorted: "spaced im \<Longrightarrow> sorted (map fst im)"
proof (induction im)
  case Nil show ?case by simp
next
  case (Cons e es)
  then show ?case using span_end_ge [of e] by fastforce
qed

text \<open>
  C6. For every CIGAR string, the anchors of the index map never decrease along the list.
\<close>

theorem make_index_map_sorted:
  "sorted (map fst (make_index_map cigar))"
  by (rule spaced_sorted [OF make_index_map_spaced])

subsection \<open>The sum of the selected adjustments\<close>






subsection \<open>The translated coordinate on index maps built from a CIGAR string\<close>

lemma spaced_snoc:
  "spaced (xs @ [e]) = (spaced xs \<and> (\<forall>x \<in> set xs. span_end x \<le> fst e))"
  by (induction xs) auto

lemma spaced_split:
  "spaced (xs @ e # ys) \<Longrightarrow>
     (\<forall>x \<in> set xs. span_end x \<le> fst e) \<and> (\<forall>y \<in> set ys. span_end e \<le> fst y)"
  by (induction xs) auto

lemma mapped_adjusts_snoc:
  "mapped_adjusts q (xs @ [e]) = (if fst e < q then mapped_adjusts q xs @ [e] else mapped_adjusts q xs)"
  by (simp add: mapped_adjusts_def)

lemma mapped_adjusts_all:
  "\<forall>x \<in> set xs. fst x < q \<Longrightarrow> mapped_adjusts q xs = xs"
  by (simp add: mapped_adjusts_def)

lemma mapped_adjusts_none:
  "\<forall>x \<in> set xs. q \<le> fst x \<Longrightarrow> mapped_adjusts q xs = []"
  by (induction xs) (auto simp: mapped_adjusts_def)

lemma offset_snoc_selected:
  assumes "spaced (xs @ [e])" "fst e < q"
  shows "offset q (xs @ [e])
     = sum_list (map snd xs) + snd e + (if snd e < 0 then max q (fst e - snd e) else q)"
proof -
  from assms(1) have "\<forall>x \<in> set xs. span_end x \<le> fst e" by (simp add: spaced_snoc)
  then have "\<forall>x \<in> set xs. fst x < q"
    using assms(2) span_end_ge by (meson le_less_trans order_trans)
  then have "mapped_adjusts q (xs @ [e]) = xs @ [e]"
    using assms(2) by (simp add: mapped_adjusts_snoc mapped_adjusts_all)
  then show ?thesis by (auto simp: offset_def Let_def max_def)
qed

lemma offset_snoc_unselected:
  "\<not> fst e < q \<Longrightarrow> offset q (xs @ [e]) = offset q xs"
  by (simp add: offset_def mapped_adjusts_snoc)

lemma offset_Nil: "offset q [] = q"
  by (simp add: offset_def mapped_adjusts_def)

lemma offset_bound:
  "spaced im \<Longrightarrow> \<forall>e \<in> set im. span_end e \<le> A \<Longrightarrow> q \<le> A
     \<Longrightarrow> offset q im \<le> A + sum_list (map snd im)"
proof (induction im arbitrary: A rule: rev_induct)
  case Nil
  then show ?case by (simp add: offset_Nil)
next
  case (snoc e xs)
  from snoc.prems(1) have sp: "spaced xs" and le: "\<forall>x \<in> set xs. span_end x \<le> fst e"
    by (simp_all add: spaced_snoc)
  from snoc.prems(2) have eA: "span_end e \<le> A" by simp
  show ?case
  proof (cases "fst e < q")
    case True
    have "offset q (xs @ [e])
        = sum_list (map snd xs) + snd e + (if snd e < 0 then max q (fst e - snd e) else q)"
      using snoc.prems(1) True by (rule offset_snoc_selected)
    with eA snoc.prems(3) show ?thesis by (auto simp: span_end_def max_def split: if_splits)
  next
    case False
    then have q: "q \<le> fst e" by simp
    have "offset q xs \<le> fst e + sum_list (map snd xs)"
      using sp le q by (rule snoc.IH)
    moreover have "fst e \<le> A + snd e" using eA by (auto simp: span_end_def split: if_splits)
    ultimately show ?thesis using False by (simp add: offset_snoc_unselected)
  qed
qed

lemma offset_mono:
  "spaced im \<Longrightarrow> q1 \<le> q2 \<Longrightarrow> offset q1 im \<le> offset q2 im"
proof (induction im rule: rev_induct)
  case Nil
  then show ?case by (simp add: offset_Nil)
next
  case (snoc e xs)
  from snoc.prems(1) have sp: "spaced xs" and le: "\<forall>x \<in> set xs. span_end x \<le> fst e"
    by (simp_all add: spaced_snoc)
  note sel = offset_snoc_selected [OF snoc.prems(1)]
  consider (both) "fst e < q1" | (none) "q2 \<le> fst e" | (second) "q1 \<le> fst e" "fst e < q2"
    by linarith
  then show ?case
  proof cases
    case both
    then have "fst e < q2" using snoc.prems(2) by simp
    with both snoc.prems(2) show ?thesis by (auto simp: sel max_def)
  next
    case none
    then have "\<not> fst e < q2" "\<not> fst e < q1" using snoc.prems(2) by simp_all
    then show ?thesis using snoc.IH [OF sp snoc.prems(2)] by (simp add: offset_snoc_unselected)
  next
    case second
    have "offset q1 xs \<le> fst e + sum_list (map snd xs)"
      using sp le second(1) by (rule offset_bound)
    moreover have "offset q1 (xs @ [e]) = offset q1 xs"
      using second(1) by (simp add: offset_snoc_unselected)
    moreover have "fst e + sum_list (map snd xs) \<le> offset q2 (xs @ [e])"
      using second(2) by (auto simp: sel max_def)
    ultimately show ?thesis by simp
  qed
qed

text \<open>
  C9. For every CIGAR string that does not begin with an I or D operator, with its index
  map and its length \<open>L\<close>: for all queries \<open>0 \<le> q1 \<le> q2 < L\<close> both translations are
  coordinates and the one of \<open>q1\<close> is at most the one of \<open>q2\<close>. (The proof does not
  use the condition on the first operator.)
\<close>

theorem translate_monotone:
  assumes "\<not> begins_with_indel cigar" "0 \<le> q1" "q1 \<le> q2" "q2 < get_length cigar"
  shows "\<exists>c1 c2.
      translate_coordinate q1 (make_index_map cigar) r (get_length cigar) = Inr (Some c1)
    \<and> translate_coordinate q2 (make_index_map cigar) r (get_length cigar) = Inr (Some c2)
    \<and> c1 \<le> c2"
proof -
  let ?im = "make_index_map cigar" and ?L = "get_length cigar"
  from assms have r1: "0 \<le> q1" "q1 < ?L" and r2: "0 \<le> q2" "q2 < ?L" by simp_all
  have "offset q1 ?im \<le> offset q2 ?im"
    using make_index_map_spaced assms(3) by (rule offset_mono)
  then show ?thesis
    by (simp add: translate_in_range [OF r1] translate_in_range [OF r2])
qed

theorem translate_monotone_witness:
  "\<not> begins_with_indel ''8M7D6M2I2M11D7M'' \<and> (0::int) \<le> 13 \<and> (13::int) \<le> 16
   \<and> 16 < get_length ''8M7D6M2I2M11D7M''
   \<and> (\<exists>c1 c2.
        translate_coordinate 13 (make_index_map ''8M7D6M2I2M11D7M'') 3
          (get_length ''8M7D6M2I2M11D7M'') = Inr (Some c1)
      \<and> translate_coordinate 16 (make_index_map ''8M7D6M2I2M11D7M'') 3
          (get_length ''8M7D6M2I2M11D7M'') = Inr (Some c2)
      \<and> c1 \<le> c2)"
proof -
  have a: "\<not> begins_with_indel ''8M7D6M2I2M11D7M''" by code_simp
  have b: "(0::int) \<le> 13" "(13::int) \<le> 16" by simp_all
  have c: "16 < get_length ''8M7D6M2I2M11D7M''" by code_simp
  from translate_monotone [OF a b c, of 3] a b c show ?thesis by blast
qed

subsection \<open>A leading soft clip\<close>

lemma mapped_adjusts_Cons:
  "mapped_adjusts q (e # es) = (if fst e < q then e # mapped_adjusts q es else mapped_adjusts q es)"
  by (simp add: mapped_adjusts_def)

lemma sum_list_nonneg_fst:
  fixes ops :: "(int \<times> 'b) list"
  shows "\<forall>p \<in> set ops. 0 \<le> fst p \<Longrightarrow> 0 \<le> sum_list (map fst (filter P ops))"
  by (induction ops) auto

lemma takeWhile_first:
  "x \<notin> set xs \<Longrightarrow> takeWhile (\<lambda>e. e \<noteq> x) (xs @ x # ys) = xs"
  by (induction xs) auto

text \<open>
  C10. For every CIGAR string whose first parsed operator is a soft clip S of length
  \<open>n \<ge> 1\<close>, the index map starts with the entry \<open>(-1, -n)\<close>, and every query \<open>q\<close> with
  \<open>0 \<le> q \<le> n - 1\<close> is in range and translates to \<open>ref_start - 1\<close>.
\<close>

theorem leading_soft_clip:
  assumes "cigar_to_operators cigar = (n, CHR ''S'') # ops" "1 \<le> n" "0 \<le> q" "q \<le> n - 1"
  shows "(\<exists>rest. make_index_map cigar = (- 1, - n) # rest)
    \<and> translate_coordinate q (make_index_map cigar) r (get_length cigar) = Inr (Some (r - 1))"
proof -
  let ?rest = "spec_index_map 0 n ops"
  have im: "make_index_map cigar = (- 1, - n) # ?rest"
    by (simp add: make_index_map_spec assms(1))
  have nn: "\<forall>p \<in> set ops. 0 \<le> fst p"
    using operators_nonneg [of cigar] assms(1) by simp
  have "\<forall>e \<in> set ?rest. n - 1 \<le> fst e" using nn by (rule spec_anchors)
  then have "\<forall>e \<in> set ?rest. q \<le> fst e" using assms(4) by auto
  then have "mapped_adjusts q ?rest = []" by (rule mapped_adjusts_none)
  then have sel: "mapped_adjusts q (make_index_map cigar) = [(- 1, - n)]"
    using assms(3) by (simp add: im mapped_adjusts_Cons)
  have off: "offset q (make_index_map cigar) = - 1"
    using assms(2,3,4) by (auto simp: offset_def Let_def sel)
  have "0 \<le> sum_list (map fst (filter (\<lambda>p. snd p \<notin> set ''DNHP'') ops))"
    using nn by (rule sum_list_nonneg_fst)
  then have "n \<le> get_length cigar" by (simp add: get_length_def assms(1))
  then have "q < get_length cigar" using assms(4) by simp
  from translate_in_range [OF assms(3) this, of "make_index_map cigar" r] off im
  show ?thesis by simp
qed

theorem leading_soft_clip_witness:
  "cigar_to_operators ''2S3M'' = (2, CHR ''S'') # [(3, CHR ''M'')] \<and> (1::int) \<le> 2
   \<and> (0::int) \<le> 1 \<and> (1::int) \<le> 2 - 1
   \<and> make_index_map ''2S3M'' = [(- 1, - 2)]
   \<and> translate_coordinate 1 (make_index_map ''2S3M'') 10 (get_length ''2S3M'') = Inr (Some 9)"
proof -
  have a: "cigar_to_operators ''2S3M'' = (2, CHR ''S'') # [(3, CHR ''M'')]" by code_simp
  have b: "(1::int) \<le> 2" "(0::int) \<le> 1" "(1::int) \<le> 2 - 1" by simp_all
  have c: "make_index_map ''2S3M'' = [(- 1, - 2)]" by code_simp
  from leading_soft_clip [OF a b, of 10]
  have "translate_coordinate 1 (make_index_map ''2S3M'') 10 (get_length ''2S3M'') = Inr (Some 9)"
    by simp
  with a b c show ?thesis by blast
qed

subsection \<open>Queries inside an insertion\<close>

lemma sum_list_filter_zero:
  "\<forall>x \<in> set xs. \<not> P x \<longrightarrow> f x = (0::int) \<Longrightarrow>
     sum_list (map f (filter P xs)) = sum_list (map f xs)"
  by (induction xs) auto

lemma mapped_adjusts_append:
  "mapped_adjusts q (xs @ ys) = mapped_adjusts q xs @ mapped_adjusts q ys"
  by (simp add: mapped_adjusts_def)

lemma offset_inside_insertion:
  assumes sp: "spaced im" and mem: "(a, - n) \<in> set im" and q: "a < q" "q \<le> a + n"
  shows "offset q im = a + sum_list (map snd (takeWhile (\<lambda>e. e \<noteq> (a, - n)) im))"
proof -
  from mem obtain xs ys where im: "im = xs @ (a, - n) # ys" and nx: "(a, - n) \<notin> set xs"
    by (meson split_list_first)
  from q have n: "0 < n" by simp
  from sp im have before: "\<forall>x \<in> set xs. span_end x \<le> a"
    and after: "\<forall>y \<in> set ys. span_end (a, - n) \<le> fst y"
    using spaced_split [of xs "(a, - n)" ys] by simp_all
  have "\<forall>x \<in> set xs. fst x < q"
    using before q(1) span_end_ge by (meson le_less_trans order_trans)
  then have sx: "mapped_adjusts q xs = xs" by (rule mapped_adjusts_all)
  have "\<forall>y \<in> set ys. q \<le> fst y" using after q(2) n by (auto simp: span_end_def)
  then have sy: "mapped_adjusts q ys = []" by (rule mapped_adjusts_none)
  have sel: "mapped_adjusts q im = xs @ [(a, - n)]"
    using q(1) by (simp add: im mapped_adjusts_append mapped_adjusts_Cons sx sy)
  have tw: "takeWhile (\<lambda>e. e \<noteq> (a, - n)) im = xs"
    unfolding im using nx by (rule takeWhile_first)
  show ?thesis using q n by (auto simp: offset_def Let_def sel tw)
qed

lemma offset_at_anchor:
  assumes sp: "spaced im" and mem: "(a, - n) \<in> set im" and n: "0 < n"
    and nodel: "\<forall>d. (a, d) \<in> set im \<longrightarrow> d \<le> 0"
  shows "offset a im = a + sum_list (map snd (takeWhile (\<lambda>e. e \<noteq> (a, - n)) im))"
proof -
  from mem obtain xs ys where im: "im = xs @ (a, - n) # ys" and nx: "(a, - n) \<notin> set xs"
    by (meson split_list_first)
  from sp im have before: "\<forall>x \<in> set xs. span_end x \<le> a"
    and after: "\<forall>y \<in> set ys. span_end (a, - n) \<le> fst y"
    using spaced_split [of xs "(a, - n)" ys] by simp_all
  have "\<forall>y \<in> set ys. a \<le> fst y" using after n by (auto simp: span_end_def)
  then have sy: "mapped_adjusts a ys = []" by (rule mapped_adjusts_none)
  have sel: "mapped_adjusts a im = mapped_adjusts a xs"
    by (simp add: im mapped_adjusts_append mapped_adjusts_Cons sy)
  have zero: "\<forall>x \<in> set xs. \<not> fst x < a \<longrightarrow> snd x = 0"
  proof (intro ballI impI)
    fix x assume x: "x \<in> set xs" and na: "\<not> fst x < a"
    from before x have se: "span_end x \<le> a" by simp
    with na span_end_ge [of x] have fa: "fst x = a" by simp
    from se fa have "0 \<le> snd x" by (auto simp: span_end_def split: if_splits)
    moreover have "(a, snd x) \<in> set im" using x fa im by (metis UnI1 prod.collapse set_append)
    then have "snd x \<le> 0" using nodel by simp
    ultimately show "snd x = 0" by simp
  qed
  have sum: "sum_list (map snd (mapped_adjusts a xs)) = sum_list (map snd xs)"
    unfolding mapped_adjusts_def using zero
    by (intro sum_list_filter_zero) simp
  have nocorr: "\<not> (mapped_adjusts a xs \<noteq> [] \<and> snd (last (mapped_adjusts a xs)) < 0
      \<and> fst (last (mapped_adjusts a xs)) - a - snd (last (mapped_adjusts a xs)) > 0)"
  proof
    assume c: "mapped_adjusts a xs \<noteq> [] \<and> snd (last (mapped_adjusts a xs)) < 0
      \<and> fst (last (mapped_adjusts a xs)) - a - snd (last (mapped_adjusts a xs)) > 0"
    then have "last (mapped_adjusts a xs) \<in> set (mapped_adjusts a xs)" by simp
    then have "last (mapped_adjusts a xs) \<in> set xs" by (simp add: mapped_adjusts_def)
    with before have "span_end (last (mapped_adjusts a xs)) \<le> a" by simp
    with c show False by (simp add: span_end_def)
  qed
  have tw: "takeWhile (\<lambda>e. e \<noteq> (a, - n)) im = xs"
    unfolding im using nx by (rule takeWhile_first)
  from nocorr show ?thesis by (auto simp: offset_def Let_def sel sum tw)
qed

text \<open>
  C2 as stated fails for a leading soft clip, which the precondition allows: in 2S3M the
  entry \<open>(-1, -2)\<close> spans the queries 0 and 1, the query 0 translates to \<open>ref_start - 1\<close>,
  and the anchor \<open>-1\<close> is no query in range, so its translation is None.
\<close>

theorem insertion_left_aligned_counterexample:
  "\<not> begins_with_indel ''2S3M''
   \<and> (- 1, - 2) \<in> set (make_index_map ''2S3M'')
   \<and> (- 1 :: int) < 0 \<and> (0::int) \<le> - 1 + 2 \<and> 0 < get_length ''2S3M''
   \<and> translate_coordinate 0 (make_index_map ''2S3M'') 10 (get_length ''2S3M'')
       \<noteq> translate_coordinate (- 1) (make_index_map ''2S3M'') 10 (get_length ''2S3M'')"
  by code_simp

text \<open>
  Where a deletion comes directly before the insertion, the two translations differ as
  well: in 4M5D2I3M the query 4, inside the insertion, translates to \<open>ref_start + 8\<close>, the
  anchor 3 to \<open>ref_start + 3\<close>.
\<close>

lemma deletion_then_insertion_example:
  "make_index_map ''4M5D2I3M'' = [(3, 5), (3, - 2)]
   \<and> translate_coordinate 4 (make_index_map ''4M5D2I3M'') 0 (get_length ''4M5D2I3M'')
       = Inr (Some 8)
   \<and> translate_coordinate 3 (make_index_map ''4M5D2I3M'') 0 (get_length ''4M5D2I3M'')
       = Inr (Some 3)"
  by code_simp

text \<open>
  C2, amended. For every CIGAR string that does not begin with an I or D operator, for every
  entry \<open>(a, -n)\<close> of its index map whose anchor \<open>a\<close> is not negative and at whose anchor no
  entry has a positive adjustment (no deletion is anchored there), and for every query \<open>q\<close>
  in range with \<open>a < q \<le> a + n\<close>: the translation of \<open>q\<close> is the translation of \<open>a\<close>, and
  it is a coordinate.
\<close>

theorem insertion_left_aligned:
  assumes "\<not> begins_with_indel cigar"
    and "(a, - n) \<in> set (make_index_map cigar)"
    and "a < q" "q \<le> a + n" "q < get_length cigar"
    and "0 \<le> a"
    and "\<forall>d. (a, d) \<in> set (make_index_map cigar) \<longrightarrow> d \<le> 0"
  shows "translate_coordinate q (make_index_map cigar) r (get_length cigar)
       = translate_coordinate a (make_index_map cigar) r (get_length cigar)
     \<and> (\<exists>c. translate_coordinate a (make_index_map cigar) r (get_length cigar) = Inr (Some c))"
proof -
  let ?im = "make_index_map cigar" and ?L = "get_length cigar"
  have sp: "spaced ?im" by (rule make_index_map_spaced)
  from assms(3,4) have n: "0 < n" by simp
  have rq: "0 \<le> q" "q < ?L" using assms(3,5,6) by simp_all
  have ra: "0 \<le> a" "a < ?L" using assms(3,5,6) by simp_all
  have "offset q ?im = offset a ?im"
    using offset_inside_insertion [OF sp assms(2) assms(3) assms(4)]
      offset_at_anchor [OF sp assms(2) n assms(7)] by simp
  then show ?thesis
    by (simp add: translate_in_range [OF rq] translate_in_range [OF ra])
qed

theorem insertion_left_aligned_witness:
  "\<not> begins_with_indel ''8M7D6M2I2M11D7M''
   \<and> (13, - 2) \<in> set (make_index_map ''8M7D6M2I2M11D7M'')
   \<and> (13::int) < 15 \<and> (15::int) \<le> 13 + 2 \<and> 15 < get_length ''8M7D6M2I2M11D7M'' \<and> (0::int) \<le> 13
   \<and> make_index_map ''8M7D6M2I2M11D7M'' = [(7, 7), (13, - 2), (17, 11)]
   \<and> translate_coordinate 15 (make_index_map ''8M7D6M2I2M11D7M'') 3 (get_length ''8M7D6M2I2M11D7M'')
       = translate_coordinate 13 (make_index_map ''8M7D6M2I2M11D7M'') 3 (get_length ''8M7D6M2I2M11D7M'')"
proof -
  have im: "make_index_map ''8M7D6M2I2M11D7M'' = [(7, 7), (13, - 2), (17, 11)]" by code_simp
  have a: "\<not> begins_with_indel ''8M7D6M2I2M11D7M''" by code_simp
  have b: "(13, - 2) \<in> set (make_index_map ''8M7D6M2I2M11D7M'')" by (simp add: im)
  have c: "(13::int) < 15" "(15::int) \<le> 13 + 2" by simp_all
  have d: "15 < get_length ''8M7D6M2I2M11D7M''" by code_simp
  have e: "(0::int) \<le> 13" by simp
  have f: "\<forall>d. (13, d) \<in> set (make_index_map ''8M7D6M2I2M11D7M'') \<longrightarrow> d \<le> 0"
    by (simp add: im)
  from insertion_left_aligned [OF a b c d e f, of 3] a b c d e im show ?thesis by blast
qed

subsection \<open>The documented examples\<close>

text \<open>
  C8. For the CIGAR string 8M7D6M2I2M11D7M and reference start 3: the length is 25, the
  index map is [(7, 7), (13, -2), (17, 11)], and the queries 0, 13, 14, 15, 16, 24 translate
  to 3, 23, 23, 23, 24, 43. For 2M2X2I2M the index map is the single entry [(3, -2)].
\<close>

theorem documented_examples:
  "get_length ''8M7D6M2I2M11D7M'' = 25
   \<and> make_index_map ''8M7D6M2I2M11D7M'' = [(7, 7), (13, - 2), (17, 11)]
   \<and> map (\<lambda>q. translate_coordinate q (make_index_map ''8M7D6M2I2M11D7M'') 3
                 (get_length ''8M7D6M2I2M11D7M'')) [0, 13, 14, 15, 16, 24]
       = map (\<lambda>c. Inr (Some c)) [3, 23, 23, 23, 24, 43]
   \<and> make_index_map ''2M2X2I2M'' = [(3, - 2)]"
  by code_simp

end
